theory Spec2Isabelle
  imports Complex_Main "HOL-Library.Word"
begin

unbundle bit_operations_syntax

section \<open>Machine types of the sketch\<close>

text \<open>
  The sketch targets an Arduino Nano (AVR): \<open>byte\<close> and \<open>uint8_t\<close> are 8 bits
  unsigned, \<open>int8_t\<close> is 8 bits signed, \<open>int\<close> is 16 bits signed and
  \<open>unsigned long\<close> is 32 bits unsigned.
\<close>

type_synonym byte = "8 word"
type_synonym cint = "16 word"
type_synonym ulong = "32 word"

section \<open>BCD conversion\<close>

text \<open>
  \<open>byte decToBcd(byte val) { return ( (val / 10 * 16) + (val % 10) ); }\<close>

  The operand is promoted to \<open>int\<close>, the expression is evaluated there (at most
  \<open>25 * 16 + 9\<close>, no overflow) and the result is converted back to \<open>byte\<close>,
  which keeps the low 8 bits.
\<close>

definition decToBcd :: "byte \<Rightarrow> byte" where
  "decToBcd val = word_of_int ((uint val div 10 * 16) + (uint val mod 10))"

text \<open>
  \<open>byte bcdToDec(byte val) { return ( (val / 16 * 10) + (val % 16) ); }\<close>
\<close>

definition bcdToDec :: "byte \<Rightarrow> byte" where
  "bcdToDec val = word_of_int ((uint val div 16 * 10) + (uint val mod 16))"

section \<open>The two-wire bus\<close>

text \<open>
  The sketch talks to the DS3231 through the Arduino \<open>Wire\<close> object. The model keeps
  the sequence of calls made on the bus and the receive buffer. \<open>Wire.requestFrom\<close>
  asks the peripheral for \<open>n\<close> bytes; what the peripheral answers is an input of
  the model (\<open>resp\<close>), of which at most \<open>n\<close> bytes are buffered. \<open>Wire.read\<close>
  returns an \<open>int\<close>: the next buffered byte, or \<open>-1\<close> when the buffer is empty.
\<close>

datatype wire_event =
    BeginTransmission byte
  | Write byte
  | EndTransmission
  | RequestFrom byte nat
  | Read

record wire =
  events :: "wire_event list"
  rxbuf :: "byte list"

definition Wire_beginTransmission :: "byte \<Rightarrow> wire \<Rightarrow> wire" where
  "Wire_beginTransmission a w = w\<lparr>events := events w @ [BeginTransmission a]\<rparr>"

definition Wire_write :: "byte \<Rightarrow> wire \<Rightarrow> wire" where
  "Wire_write b w = w\<lparr>events := events w @ [Write b]\<rparr>"

definition Wire_endTransmission :: "wire \<Rightarrow> wire" where
  "Wire_endTransmission w = w\<lparr>events := events w @ [EndTransmission]\<rparr>"

definition Wire_requestFrom :: "byte list \<Rightarrow> byte \<Rightarrow> nat \<Rightarrow> wire \<Rightarrow> wire" where
  "Wire_requestFrom resp a n w =
     w\<lparr>events := events w @ [RequestFrom a n], rxbuf := take n resp\<rparr>"

definition Wire_read :: "wire \<Rightarrow> cint \<times> wire" where
  "Wire_read w =
     (case rxbuf w of
        [] \<Rightarrow> (- 1, w\<lparr>events := events w @ [Read]\<rparr>)
      | b # bs \<Rightarrow> (ucast b, w\<lparr>events := events w @ [Read], rxbuf := bs\<rparr>))"

section \<open>RTC register access\<close>

definition DS3231_I2C_ADDRESS :: byte where
  "DS3231_I2C_ADDRESS = 0x68"

definition DS3231_TEMPERATURE_ADDR :: byte where
  "DS3231_TEMPERATURE_ADDR = 0x11"

text \<open>\<open>setDS3231time\<close>: one write transaction, register pointer first.\<close>

definition setDS3231time ::
  "byte \<Rightarrow> byte \<Rightarrow> byte \<Rightarrow> byte \<Rightarrow> byte \<Rightarrow> byte \<Rightarrow> byte \<Rightarrow> wire \<Rightarrow> wire" where
  "setDS3231time second minute hour dayOfWeek dayOfMonth month year w =
     (let w = Wire_beginTransmission DS3231_I2C_ADDRESS w;
          w = Wire_write 0 w;
          w = Wire_write (decToBcd second) w;
          w = Wire_write (decToBcd minute) w;
          w = Wire_write (decToBcd hour) w;
          w = Wire_write (decToBcd dayOfWeek) w;
          w = Wire_write (decToBcd dayOfMonth) w;
          w = Wire_write (decToBcd month) w;
          w = Wire_write (decToBcd year) w
      in Wire_endTransmission w)"

text \<open>
  \<open>readDS3231time\<close>: the seven out-parameters are returned as a tuple, in the order
  second, minute, hour, dayOfWeek, dayOfMonth, month, year. The masks are applied to the
  \<open>int\<close> that \<open>Wire.read()\<close> returns; passing the result to \<open>bcdToDec(byte)\<close>
  keeps its low 8 bits.
\<close>

definition readDS3231time ::
  "byte list \<Rightarrow> wire \<Rightarrow> (byte \<times> byte \<times> byte \<times> byte \<times> byte \<times> byte \<times> byte) \<times> wire" where
  "readDS3231time resp w =
     (let w = Wire_beginTransmission DS3231_I2C_ADDRESS w;
          w = Wire_write 0 w;
          w = Wire_endTransmission w;
          w = Wire_requestFrom resp DS3231_I2C_ADDRESS 7 w;
          (r, w) = Wire_read w; second = bcdToDec (ucast (r AND 0x7f));
          (r, w) = Wire_read w; minute = bcdToDec (ucast r);
          (r, w) = Wire_read w; hour = bcdToDec (ucast (r AND 0x3f));
          (r, w) = Wire_read w; dayOfWeek = bcdToDec (ucast r);
          (r, w) = Wire_read w; dayOfMonth = bcdToDec (ucast r);
          (r, w) = Wire_read w; month = bcdToDec (ucast r);
          (r, w) = Wire_read w; year = bcdToDec (ucast r)
      in ((second, minute, hour, dayOfWeek, dayOfMonth, month, year), w))"

text \<open>
  The cast \<open>(byte) x\<close> of a floating-point value drops the fraction (rounds towards
  zero). When the truncated value does not fit a \<open>byte\<close> the language leaves the
  result open; the model takes what the platform stores in that case as the parameter
  \<open>oor\<close>, so that nothing proved below depends on it.
\<close>

definition trunc :: "real \<Rightarrow> int" where
  "trunc x = (if 0 \<le> x then \<lfloor>x\<rfloor> else \<lceil>x\<rceil>)"

definition byte_of_double :: "(int \<Rightarrow> byte) \<Rightarrow> real \<Rightarrow> byte" where
  "byte_of_double oor x =
     (if 0 \<le> trunc x \<and> trunc x \<le> 255 then word_of_int (trunc x) else oor (trunc x))"

text \<open>
  \<open>readDS3231temperature\<close>. \<open>temp_msb\<close> and \<open>temp_lsb\<close> are \<open>uint8_t\<close>,
  \<open>nint\<close> is \<open>int8_t\<close> (an 8-bit word read with \<open>sint\<close>). The shift and the
  sign-extension ladder \<open>temp_msb | ~((1 << 8) - 1)\<close> are evaluated in \<open>int\<close>.
  The sum \<open>0.25 * temp_lsb + nint\<close> is a multiple of a quarter between \<open>-128\<close> and
  \<open>190.75\<close>, which floating point represents exactly, so it is modelled in \<open>real\<close>.
\<close>

definition readDS3231temperature ::
  "(int \<Rightarrow> byte) \<Rightarrow> byte list \<Rightarrow> wire \<Rightarrow> byte \<times> wire" where
  "readDS3231temperature oor resp w =
     (let w = Wire_beginTransmission DS3231_I2C_ADDRESS w;
          w = Wire_write DS3231_TEMPERATURE_ADDR w;
          w = Wire_endTransmission w;
          w = Wire_requestFrom resp DS3231_I2C_ADDRESS 2 w;
          (r, w) = Wire_read w; temp_msb = (ucast r :: byte);
          (r, w) = Wire_read w; temp_lsb = (ucast (signed_drop_bit 6 r) :: byte);
          nint = (if (ucast temp_msb :: cint) AND 0x80 \<noteq> 0
                  then (ucast ((ucast temp_msb :: cint) OR NOT (push_bit 8 1 - 1)) :: byte)
                  else temp_msb)
      in (byte_of_double oor (0.25 * real (unat temp_lsb) + real_of_int (sint nint)), w))"

text \<open>
  \<open>setTime(hr, min, sec, day, month, yr)\<close> belongs to the Time library; the model
  keeps the six \<open>int\<close> arguments it is called with as the system time that was set.
\<close>

record clock =
  tm_hr :: int
  tm_min :: int
  tm_sec :: int
  tm_day :: int
  tm_month :: int
  tm_yr :: int

definition setTime :: "int \<Rightarrow> int \<Rightarrow> int \<Rightarrow> int \<Rightarrow> int \<Rightarrow> int \<Rightarrow> clock" where
  "setTime hr mn sec dy mnth yr =
     \<lparr>tm_hr = hr, tm_min = mn, tm_sec = sec, tm_day = dy, tm_month = mnth, tm_yr = yr\<rparr>"

text \<open>
  \<open>updateTime\<close>: \<open>setTime(hr, min, sec, dy, mon, 2000 + yr)\<close>; the bytes are promoted
  to \<open>int\<close> and \<open>2000 + yr\<close> is at most 2165.
\<close>

definition updateTime :: "byte list \<Rightarrow> wire \<Rightarrow> clock \<times> wire" where
  "updateTime resp w =
     (let ((sec, mn, hr, wd, dy, mon, yr), w) = readDS3231time resp w
      in (setTime (uint hr) (uint mn) (uint sec) (uint dy) (uint mon) (2000 + uint yr), w))"

section \<open>The sketch: globals and the polling loop\<close>

text \<open>
  \<open>HIGH\<close> and \<open>LOW\<close> are the Arduino core's constants 1 and 0. The \<open>int\<close>
  globals are modelled in \<open>int\<close>; lemma \<open>chase_no_overflow\<close> below shows that in
  every state the animation reaches each arithmetic result stays inside 16 bits, so no
  operation wraps. The \<open>unsigned long\<close> time stamps are 32-bit words, where
  subtraction wraps as in the source.
\<close>

definition HIGH :: int where
  "HIGH = 1"

definition LOW :: int where
  "LOW = 0"

definition NUM_LEDS :: int where
  "NUM_LEDS = 12"

record sketch =
  ledState :: int
  buttonState :: int
  lastButtonState :: int
  chStep :: int
  chLed :: int
  chDelay :: int
  chRound :: int
  chLastTime :: ulong
  lastDebounceTime :: ulong
  debounceDelay :: ulong
  leds :: "bool list"

text \<open>
  The globals as initialised (\<open>buttonState\<close> has no initialiser and starts at 0);
  \<open>setup()\<close> leaves the twelve outputs off.
\<close>

definition init :: sketch where
  "init = \<lparr>ledState = HIGH, buttonState = 0, lastButtonState = LOW,
            chStep = 1, chLed = 0, chDelay = 20, chRound = 0,
            chLastTime = 0, lastDebounceTime = 0, debounceDelay = 1000,
            leds = replicate 12 False\<rparr>"

text \<open>
  What one pass of \<open>loop()\<close> reads: the value of \<open>analogRead(BUTTON_PIN)\<close> and the
  time, in milliseconds since power-on, at each of the four places where \<open>millis()\<close>
  is called (lines 220, 223, 249 and 272). \<open>millis()\<close> returns that time as an
  \<open>unsigned long\<close>, so it wraps at \<open>2 ^ 32\<close>.
\<close>

record loop_in =
  reading :: int
  t_reset :: nat
  t_check :: nat
  t_chase :: nat
  t_stamp :: nat

definition millis :: "nat \<Rightarrow> ulong" where
  "millis t = of_nat t"

text \<open>The operator \<open>!\<close> on an \<open>int\<close>.\<close>

definition lnot :: "int \<Rightarrow> int" where
  "lnot x = (if x = 0 then 1 else 0)"

text \<open>\<open>setOnlyLed(n)\<close>: output \<open>i\<close> is on exactly when \<open>n == i\<close>.\<close>

definition setOnlyLed :: "int \<Rightarrow> bool list" where
  "setOnlyLed n = map (\<lambda>i. n = int i) [0 ..< nat NUM_LEDS]"

text \<open>The debounce part of \<open>loop()\<close> (lines 218 to 242).\<close>

definition debounce :: "loop_in \<Rightarrow> sketch \<Rightarrow> sketch" where
  "debounce i s =
     (let s = (if reading i \<noteq> lastButtonState s
               then s\<lparr>lastDebounceTime := millis (t_reset i)\<rparr> else s)
      in if millis (t_check i) - lastDebounceTime s > debounceDelay s
         then (if reading i \<noteq> buttonState s
               then (let s = s\<lparr>buttonState := reading i\<rparr>
                     in if buttonState s = HIGH
                        then s\<lparr>ledState := lnot (ledState s)\<rparr> else s)
               else s)
         else s)"

text \<open>The body of the animation branch (lines 252 to 271).\<close>

definition chase_step :: "sketch \<Rightarrow> sketch" where
  "chase_step s =
     (let s = (if chLed s > NUM_LEDS - 2 \<or> chLed s < 0
               then (let s = s\<lparr>chRound := chRound s + 1\<rparr>;
                         s = s\<lparr>chLed := (if chLed s > NUM_LEDS - 1 then - 1 else NUM_LEDS - 1)\<rparr>
                     in if chRound s > 20
                        then (let s = s\<lparr>chStep := - chStep s\<rparr>;
                                  s = s\<lparr>chDelay := (if chDelay s < 2000 then chDelay s + 20 else 20)\<rparr>
                              in s\<lparr>chRound := 0\<rparr>)
                        else s)
               else s);
          s = (if chLed s + chStep s < NUM_LEDS \<and> chLed s + chStep s \<ge> 0
               then s\<lparr>chLed := chLed s + chStep s\<rparr>
               else s\<lparr>chLed := (if chStep s > 0 then 0 else NUM_LEDS - 1)\<rparr>)
      in s\<lparr>leds := setOnlyLed (chLed s)\<rparr>)"

text \<open>
  The animation branch with its guard (lines 249 to 273); \<open>chDelay\<close> is converted to
  \<open>unsigned long\<close> for the comparison.
\<close>

definition chase :: "loop_in \<Rightarrow> sketch \<Rightarrow> sketch" where
  "chase i s =
     (if millis (t_chase i) - chLastTime s > word_of_int (chDelay s)
      then (chase_step s)\<lparr>chLastTime := millis (t_stamp i)\<rparr>
      else s)"

definition loop :: "loop_in \<Rightarrow> sketch \<Rightarrow> sketch" where
  "loop i s =
     (let s = debounce i s;
          s = chase i s
      in s\<lparr>lastButtonState := reading i\<rparr>)"

text \<open>The state after the passes of \<open>loop()\<close> that read \<open>ins\<close>, in order.\<close>

definition run :: "loop_in list \<Rightarrow> sketch \<Rightarrow> sketch" where
  "run ins s = foldl (\<lambda>s i. loop i s) s ins"

section \<open>Predicates used to state and prove the properties\<close>

subsection \<open>Chase animation\<close>

text \<open>The branch of \<open>chase_step\<close> taken at the end of a sweep, and the reversal in it.\<close>

definition at_end :: "sketch \<Rightarrow> bool" where
  "at_end s \<longleftrightarrow> chLed s > NUM_LEDS - 2 \<or> chLed s < 0"

definition reversal :: "sketch \<Rightarrow> bool" where
  "reversal s \<longleftrightarrow> at_end s \<and> chRound s + 1 > 20"

definition delay_ok :: "int \<Rightarrow> bool" where
  "delay_ok d \<longleftrightarrow> 20 \<le> d \<and> d \<le> 2000 \<and> d mod 20 = 0"

definition chase_inv :: "sketch \<Rightarrow> bool" where
  "chase_inv s \<longleftrightarrow>
     0 \<le> chLed s \<and> chLed s \<le> 11 \<and> (chStep s = 1 \<or> chStep s = - 1) \<and>
     0 \<le> chRound s \<and> chRound s \<le> 20 \<and>
     20 \<le> chDelay s \<and> chDelay s \<le> 2000 \<and> chDelay s mod 20 = 0"

definition int16 :: "int \<Rightarrow> bool" where
  "int16 x \<longleftrightarrow> - 32768 \<le> x \<and> x \<le> 32767"

text \<open>
  The animation state \<open>n\<close> steps after power-on, as long as no reversal has happened:
  the index walks upwards and the round counter counts the completed sweeps.
\<close>

definition sweeping :: "nat \<Rightarrow> sketch \<Rightarrow> bool" where
  "sweeping n s \<longleftrightarrow>
     chLed s = int (n mod 12) \<and> chRound s = int (n div 12) \<and> chStep s = 1 \<and> chDelay s = 20"

text \<open>
  The animation state \<open>n\<close> steps after power-on, in general: \<open>n div 252\<close>
  reversals have happened, the direction is upwards after an even number of them, the
  round counter counts the sweeps completed since the last one, and the delay has grown by
  20 ms with each, starting again at 20 ms after 2000 ms.
\<close>

definition phase :: "nat \<Rightarrow> sketch \<Rightarrow> bool" where
  "phase n s \<longleftrightarrow>
     chStep s = (if even (n div 252) then 1 else - 1) \<and>
     chRound s = int (n mod 252 div 12) \<and>
     chLed s = (if even (n div 252) then int (n mod 252 mod 12)
                else if n mod 252 mod 12 = 11 then 11 else 10 - int (n mod 252 mod 12)) \<and>
     chDelay s = 20 * (int (n div 252 mod 100) + 1)"

text \<open>A state in which the next animation step is a reversal at the delay ceiling.\<close>

definition at_ceiling :: sketch where
  "at_ceiling = init\<lparr>chLed := 11, chRound := 20, chDelay := 2000\<rparr>"

subsection \<open>Debounce\<close>

text \<open>The clock readings of a run never go backwards.\<close>

definition times_of :: "loop_in \<Rightarrow> nat list" where
  "times_of i = [t_reset i, t_check i, t_chase i, t_stamp i]"

definition clock_ok :: "loop_in list \<Rightarrow> bool" where
  "clock_ok ins \<longleftrightarrow> sorted (concat (map times_of ins))"

text \<open>Pass \<open>j\<close> (counted from 0) of the run from power-on toggles the latch.\<close>

definition toggle_at :: "loop_in list \<Rightarrow> nat \<Rightarrow> bool" where
  "toggle_at ins j \<longleftrightarrow>
     ledState (run (take (Suc j) ins) init) \<noteq> ledState (run (take j ins) init)"

definition toggles :: "loop_in \<Rightarrow> sketch \<Rightarrow> bool" where
  "toggles i s \<longleftrightarrow> ledState (loop i s) \<noteq> ledState s"

text \<open>The guard of line 223, with the reset of line 220 taken into account.\<close>

definition accept :: "loop_in \<Rightarrow> sketch \<Rightarrow> bool" where
  "accept i s \<longleftrightarrow>
     debounceDelay s <
       millis (t_check i) -
         (if reading i \<noteq> lastButtonState s then millis (t_reset i) else lastDebounceTime s)"

text \<open>
  \<open>lastDebounceTime\<close> is the time of the last pass whose reading differed from the
  one before, unless the reading has been \<open>LOW\<close> since power-on.
\<close>

definition stable :: "loop_in list \<Rightarrow> sketch \<Rightarrow> bool" where
  "stable xs s \<longleftrightarrow>
     (lastButtonState s = LOW \<and> (\<forall>k<length xs. reading (xs ! k) = LOW)) \<or>
     (\<exists>m<length xs. lastDebounceTime s = millis (t_reset (xs ! m)) \<and>
        (\<forall>k. m \<le> k \<and> k < length xs \<longrightarrow> reading (xs ! k) = lastButtonState s))"

text \<open>
  After a toggle at time \<open>T\<close>: either the debounce delay has passed since, or the
  accepted state is still \<open>HIGH\<close> and any change of the reading was seen after \<open>T\<close>.
\<close>

definition quiet :: "nat \<Rightarrow> nat \<Rightarrow> sketch \<Rightarrow> bool" where
  "quiet T now s \<longleftrightarrow>
     T \<le> now \<and>
     (T + unat (debounceDelay s) < now \<or>
      (buttonState s = HIGH \<and>
        (lastButtonState s = HIGH \<or>
         (\<exists>L. lastDebounceTime s = millis L \<and> T \<le> L \<and> L \<le> now))))"

text \<open>A run with two presses, each held for longer than the debounce delay.\<close>

definition sample :: "int \<Rightarrow> nat \<Rightarrow> loop_in" where
  "sample r t = \<lparr>reading = r, t_reset = t, t_check = t, t_chase = t, t_stamp = t\<rparr>"

definition two_presses :: "loop_in list" where
  "two_presses = [sample 1 100, sample 1 1200, sample 0 1300, sample 0 2400,
                  sample 1 2500, sample 1 3600]"


section \<open>BCD: properties\<close>

lemma uint_decToBcd:
  assumes "uint d \<le> 99"
  shows "uint (decToBcd d) = uint d div 10 * 16 + uint d mod 10"
proof -
  let ?v = "uint d div 10 * 16 + uint d mod 10"
  have "0 \<le> uint d" by simp
  with assms have "0 \<le> ?v" and "?v < 256" by presburger+
  then have t: "take_bit 8 ?v = ?v" by (simp add: take_bit_int_eq_self)
  have a: "uint (word_of_int ?v :: byte) = take_bit LENGTH(8) ?v"
    by (rule uint_word_of_int_eq)
  have b: "LENGTH(8) = 8" by simp
  show ?thesis unfolding decToBcd_def a b by (fact t)
qed

text \<open>
  C1. For every decimal value \<open>d\<close> from 0 to 99, decoding the BCD encoding of \<open>d\<close>
  gives \<open>d\<close> back: \<open>bcdToDec(decToBcd(d)) == d\<close>.
\<close>

theorem bcd_roundtrip:
  assumes "d \<le> 99"
  shows "bcdToDec (decToBcd d) = d"
proof -
  from assms have le: "uint d \<le> 99" by (simp add: word_le_def)
  have nn: "0 \<le> uint d" by simp
  let ?n = "uint d"
  have hi: "(?n div 10 * 16 + ?n mod 10) div 16 = ?n div 10" by simp
  have lo: "(?n div 10 * 16 + ?n mod 10) mod 16 = ?n mod 10" by simp
  have "bcdToDec (decToBcd d) = word_of_int (?n div 10 * 10 + ?n mod 10)"
    unfolding bcdToDec_def uint_decToBcd [OF le] hi lo ..
  also have "?n div 10 * 10 + ?n mod 10 = ?n" by simp
  finally show ?thesis by simp
qed

theorem bcd_roundtrip_witness:
  "(59 :: byte) \<le> 99 \<and> bcdToDec (decToBcd 59) = 59"
  using bcd_roundtrip [of 59] by simp

text \<open>
  C7. \<open>decToBcd(34) == 0x34\<close> (high nibble 3, low nibble 4) and
  \<open>bcdToDec(0x52) == 52\<close>.
\<close>

theorem bcd_scenario:
  "decToBcd 34 = 0x34 \<and> drop_bit 4 (decToBcd 34) = 3 \<and> decToBcd 34 AND 0x0F = 4
   \<and> bcdToDec 0x52 = 52"
  by (simp add: decToBcd_def bcdToDec_def)

section \<open>RTC register access: properties\<close>

lemmas wire_ops = Wire_beginTransmission_def Wire_write_def Wire_endTransmission_def
  Wire_requestFrom_def Wire_read_def DS3231_I2C_ADDRESS_def DS3231_TEMPERATURE_ADDR_def

lemma Wire_read_events: "events (snd (Wire_read w)) = events w @ [Read]"
  by (simp add: Wire_read_def split: list.split)

lemma set_events:
  "events (setDS3231time s mi h dw dm mo y w) =
     events w @ [BeginTransmission 0x68, Write 0, Write (decToBcd s), Write (decToBcd mi),
       Write (decToBcd h), Write (decToBcd dw), Write (decToBcd dm), Write (decToBcd mo),
       Write (decToBcd y), EndTransmission]"
  by (simp add: setDS3231time_def wire_ops)

lemma read_events:
  "events (snd (readDS3231time resp w)) =
     events w @ [BeginTransmission 0x68, Write 0, EndTransmission, RequestFrom 0x68 7,
       Read, Read, Read, Read, Read, Read, Read]"
  unfolding readDS3231time_def Let_def
  by (simp add: split_beta Wire_read_events) (simp add: wire_ops)

lemma temp_events:
  "events (snd (readDS3231temperature oor resp w)) =
     events w @ [BeginTransmission 0x68, Write 0x11, EndTransmission, RequestFrom 0x68 2,
       Read, Read]"
  unfolding readDS3231temperature_def Let_def
  by (simp add: split_beta Wire_read_events) (simp add: wire_ops)

text \<open>
  C8. Every bus transaction targets the fixed peripheral address 0x68 and has a fixed
  length and register pointer: \<open>setDS3231time\<close> writes register pointer 0x00 followed by
  exactly 7 BCD-encoded bytes in the order second, minute, hour, day-of-week,
  day-of-month, month, year; \<open>readDS3231time\<close> sets pointer 0x00 and reads exactly 7
  bytes; \<open>readDS3231temperature\<close> sets pointer 0x11 and reads exactly 2 bytes. Stated
  for every argument, every answer of the peripheral and every earlier bus history: the
  calls each function adds to the history are exactly the listed ones.
\<close>

theorem bus_transactions:
  "events (setDS3231time second minute hour dayOfWeek dayOfMonth month year w) =
     events w @ [BeginTransmission 0x68, Write 0x00,
       Write (decToBcd second), Write (decToBcd minute), Write (decToBcd hour),
       Write (decToBcd dayOfWeek), Write (decToBcd dayOfMonth), Write (decToBcd month),
       Write (decToBcd year), EndTransmission]
   \<and> events (snd (readDS3231time resp w)) =
     events w @ [BeginTransmission 0x68, Write 0x00, EndTransmission, RequestFrom 0x68 7,
       Read, Read, Read, Read, Read, Read, Read]
   \<and> events (snd (readDS3231temperature oor resp w)) =
     events w @ [BeginTransmission 0x68, Write 0x11, EndTransmission, RequestFrom 0x68 2,
       Read, Read]"
  by (simp only: set_events read_events temp_events simp_thms)

subsection \<open>Masks of the time registers\<close>

lemma mask7f: "(ucast ((ucast (b::byte) :: cint) AND 0x7f) :: byte) = b AND 0x7f"
  by (rule bit_word_eqI) (auto simp add: bit_simps)

lemma mask3f: "(ucast ((ucast (b::byte) :: cint) AND 0x3f) :: byte) = b AND 0x3f"
  by (rule bit_word_eqI) (auto simp add: bit_simps)

lemma and7f_or80: "((b::byte) OR 0x80) AND 0x7f = b AND 0x7f"
  by (simp add: bit.conj_disj_distrib2)

lemma and3f_orC0: "((b::byte) OR 0xC0) AND 0x3f = b AND 0x3f"
  by (simp add: bit.conj_disj_distrib2)

lemma ucast_ucast_byte: "(ucast (ucast (b::byte) :: cint) :: byte) = b"
  by (rule bit_word_eqI) (auto simp add: bit_simps)

lemma read_fields:
  "fst (readDS3231time [b0, b1, b2, b3, b4, b5, b6] w) =
     (bcdToDec (b0 AND 0x7f), bcdToDec b1, bcdToDec (b2 AND 0x3f), bcdToDec b3,
      bcdToDec b4, bcdToDec b5, bcdToDec b6)"
  unfolding readDS3231time_def Let_def
  by (simp add: wire_ops mask7f mask3f ucast_ucast_byte)

lemma read_fields_highbits:
  "fst (readDS3231time [b0 OR 0x80, b1, b2 OR 0xC0, b3, b4, b5, b6] w) =
   fst (readDS3231time [b0 AND 0x7f, b1, b2 AND 0x3f, b3, b4, b5, b6] w)"
  unfolding read_fields
  by (simp add: and7f_or80 and3f_orC0 flip: and.assoc)

text \<open>
  C9. \<open>readDS3231time\<close> masks the raw seconds byte with 0x7f and the raw hour byte with
  0x3f before BCD decoding (discarding the registers' high control/mode bits), while the
  minute, day-of-week, day-of-month, month and year bytes are decoded unmasked. Stated
  for the seven bytes the peripheral answers with; the second part says that setting the
  masked-out bits of the seconds and hour bytes gives the same result as clearing them.
\<close>

theorem readDS3231time_masks:
  "fst (readDS3231time [b0, b1, b2, b3, b4, b5, b6] w) =
     (bcdToDec (b0 AND 0x7f), bcdToDec b1, bcdToDec (b2 AND 0x3f), bcdToDec b3,
      bcdToDec b4, bcdToDec b5, bcdToDec b6)
   \<and> fst (readDS3231time [b0 OR 0x80, b1, b2 OR 0xC0, b3, b4, b5, b6] w) =
       fst (readDS3231time [b0 AND 0x7f, b1, b2 AND 0x3f, b3, b4, b5, b6] w)"
  using read_fields [of b0 b1 b2 b3 b4 b5 b6 w] read_fields_highbits [of b0 b1 b2 b3 b4 b5 b6 w]
  by (rule conjI)

text \<open>
  C10. \<open>updateTime\<close> interprets the RTC's two-digit year field as an offset from 2000:
  the system time it sets always has year equal to 2000 plus the value decoded from the
  RTC year register. Stated for the year handed to \<open>setTime\<close>: for every answer of the
  peripheral it is 2000 plus the year that \<open>readDS3231time\<close> returns, and for a
  seven-byte answer it is 2000 plus the BCD decoding of the last byte.
\<close>

theorem updateTime_year:
  "tm_yr (fst (updateTime resp w)) =
     2000 + uint (snd (snd (snd (snd (snd (snd (fst (readDS3231time resp w))))))))
   \<and> tm_yr (fst (updateTime [b0, b1, b2, b3, b4, b5, b6] w)) = 2000 + uint (bcdToDec b6)"
  by (simp add: updateTime_def setTime_def split_beta read_fields)

subsection \<open>Temperature\<close>

lemma lsb_shift:
  "(ucast (signed_drop_bit 6 (ucast (lsb::byte) :: cint)) :: byte) = drop_bit 6 lsb"
  by (rule bit_word_eqI) (auto simp add: bit_simps)

lemma neg256: "(- 256 :: cint) = NOT (mask 8)"
  by (simp add: mask_eq_exp_minus_1)

lemma nint_bits: "(ucast ((ucast (msb::byte) :: cint) OR - 256) :: byte) = msb"
  unfolding neg256 by (rule bit_word_eqI) (auto simp add: bit_simps)

lemma sign_bit_byte: "(ucast (msb::byte) :: cint) AND 0x80 \<noteq> 0 \<longleftrightarrow> bit msb 7"
proof -
  have "bit (ucast msb :: cint) 7 \<longleftrightarrow> (ucast msb :: cint) AND push_bit 7 1 \<noteq> 0"
    by (rule bit_iff_and_push_bit_not_eq_0)
  moreover have "bit (ucast msb :: cint) 7 \<longleftrightarrow> bit msb 7"
    by (simp add: bit_simps)
  moreover have "push_bit 7 1 = (0x80 :: cint)" by simp
  ultimately show ?thesis by simp
qed

lemma sign_extend:
  assumes "bit (msb::byte) 7"
  shows "(ucast msb :: cint) OR - 256 = scast msb"
  unfolding neg256
proof (rule bit_word_eqI)
  fix n :: nat
  have "n < 7 \<or> n = 7 \<or> 8 \<le> n" by arith
  then show "bit ((ucast msb :: cint) OR NOT (mask 8)) n = bit (scast msb :: cint) n"
    using assms by (auto simp add: bit_simps min_def)
qed

lemma sint_scast_byte: "sint (scast (msb::byte) :: cint) = sint msb"
  by (rule sint_up_scast) (simp add: is_up)

text \<open>
  The sign-extension ladder, evaluated in \<open>int\<close>, has the value of \<open>temp_msb\<close> read as
  two's complement, so storing it in the \<open>int8_t\<close> loses nothing.
\<close>

lemma nint_value:
  "(ucast (msb::byte) :: cint) AND 0x80 \<noteq> 0 \<Longrightarrow>
     sint ((ucast msb :: cint) OR NOT (push_bit 8 1 - 1)) = sint msb"
  by (simp add: sign_bit_byte sign_extend sint_scast_byte)

lemma temp_value:
  "fst (readDS3231temperature oor [msb, lsb] w) =
     byte_of_double oor (real_of_int (sint msb) + 0.25 * real (unat (drop_bit 6 lsb)))"
  unfolding readDS3231temperature_def Let_def
  by (simp add: wire_ops lsb_shift nint_bits ucast_ucast_byte add.commute)

lemma frac_le: "unat (drop_bit 6 (lsb::byte)) \<le> 3"
proof -
  have "unat lsb < 256" using unsigned_less [of lsb] by simp
  moreover have "drop_bit 6 lsb = lsb div 64" by (simp add: drop_bit_eq_div)
  then have "unat (drop_bit 6 lsb) = unat lsb div 64" by (simp add: unat_div)
  ultimately show ?thesis by arith
qed

lemma trunc_quarters:
  assumes "0 \<le> n" "k \<le> 3"
  shows "trunc (real_of_int n + 0.25 * real k) = n"
proof -
  have "0 \<le> real_of_int n + 0.25 * real k" using assms by simp
  moreover have "\<lfloor>real_of_int n + 0.25 * real k\<rfloor> = n"
    using assms by (simp add: floor_eq_iff)
  ultimately show ?thesis by (simp add: trunc_def)
qed

lemma sint_low7: "sint ((msb::byte) AND 0x7f) = uint (msb AND 0x7f)"
proof -
  have "msb AND 0x7f \<le> 0x7f" by (rule word_and_le1)
  then have le: "uint (msb AND 0x7f) \<le> 127" by (simp add: word_le_def)
  have m: "(0x7f :: byte) = mask 7" by (simp add: mask_eq_exp_minus_1)
  have nb: "\<not> bit (msb AND 0x7f) 7" unfolding m by (simp add: bit_simps)
  have "take_bit 7 (uint (msb AND 0x7f)) = uint (msb AND 0x7f)"
    using le by (simp add: take_bit_int_eq_self)
  with nb show ?thesis
    by (simp add: sint_uint signed_take_bit_eq_if_positive bit_uint_iff)
qed

lemma temp_nonneg:
  "fst (readDS3231temperature oor [msb AND 0x7f, lsb] w) = msb AND 0x7f"
proof -
  let ?m = "msb AND 0x7f"
  have r: "0 \<le> uint ?m" "uint ?m \<le> 255" using uint_lt2p [of ?m] by simp_all
  have t: "trunc (real_of_int (uint ?m) + 0.25 * real (unat (drop_bit 6 lsb))) = uint ?m"
    by (rule trunc_quarters) (simp_all add: frac_le)
  show ?thesis
    unfolding temp_value sint_low7 byte_of_double_def t using r by simp
qed

text \<open>
  C5. For every pair of raw temperature bytes (msb, lsb) read from register 0x11,
  \<open>readDS3231temperature\<close> stores the value of the msb interpreted as a
  two's-complement signed 8-bit integer plus a fractional component of 0.25 degrees per
  unit of the top two bits of the lsb, truncated into an unsigned byte. The truncation is
  the cast \<open>byte_of_double\<close>; the top two bits of the lsb are \<open>drop_bit 6 lsb\<close>, a
  number from 0 to 3. When the sign bit of the msb is clear the stored byte is the msb
  itself.
\<close>

theorem readDS3231temperature_value:
  "fst (readDS3231temperature oor [msb, lsb] w) =
     byte_of_double oor (real_of_int (sint msb) + 0.25 * real (unat (drop_bit 6 lsb)))
   \<and> unat (drop_bit 6 lsb) \<le> 3
   \<and> fst (readDS3231temperature oor [msb AND 0x7f, lsb] w) = msb AND 0x7f"
  using temp_value [of oor msb lsb w] frac_le [of lsb] temp_nonneg [of oor msb lsb w]
  by (intro conjI)

section \<open>Chase animation: properties\<close>

lemma chLed_chase_step:
  "chLed (chase_step s) =
     (let l = (if at_end s then (if chLed s > 11 then - 1 else 11) else chLed s);
          d = (if reversal s then - chStep s else chStep s)
      in if l + d < 12 \<and> 0 \<le> l + d then l + d else if d > 0 then 0 else 11)"
  by (auto simp add: chase_step_def Let_def at_end_def reversal_def NUM_LEDS_def)

lemma chStep_chase_step:
  "chStep (chase_step s) = (if reversal s then - chStep s else chStep s)"
  by (simp add: chase_step_def Let_def at_end_def reversal_def NUM_LEDS_def)

lemma chDelay_chase_step:
  "chDelay (chase_step s) =
     (if reversal s then (if chDelay s < 2000 then chDelay s + 20 else 20) else chDelay s)"
  by (simp add: chase_step_def Let_def at_end_def reversal_def NUM_LEDS_def)

lemma chRound_chase_step:
  "chRound (chase_step s) =
     (if reversal s then 0 else if at_end s then chRound s + 1 else chRound s)"
  by (simp add: chase_step_def Let_def at_end_def reversal_def NUM_LEDS_def)

lemmas chase_fields =
  chLed_chase_step chStep_chase_step chDelay_chase_step chRound_chase_step

lemma chLed_range: "0 \<le> chLed (chase_step s) \<and> chLed (chase_step s) \<le> 11"
  by (simp add: chLed_chase_step Let_def)

lemma chLed_iter: "0 \<le> chLed ((chase_step ^^ n) init) \<and> chLed ((chase_step ^^ n) init) \<le> 11"
proof (cases n)
  case 0
  then show ?thesis by (simp add: init_def)
next
  case (Suc m)
  then show ?thesis using chLed_range [of "(chase_step ^^ m) init"] by simp
qed

lemma run_snoc: "run (xs @ [x]) s = loop x (run xs s)"
  by (simp add: run_def)

lemma chLed_debounce: "chLed (debounce i s) = chLed s"
  by (simp add: debounce_def Let_def)

lemma chLed_chase:
  "chLed (chase i s) = chLed s \<or> chLed (chase i s) = chLed (chase_step s)"
  by (simp add: chase_def)

lemma chLed_loop:
  assumes "0 \<le> chLed s \<and> chLed s \<le> 11"
  shows "0 \<le> chLed (loop i s) \<and> chLed (loop i s) \<le> 11"
proof -
  let ?d = "debounce i s"
  have l: "chLed (loop i s) = chLed (chase i ?d)" by (simp add: loop_def Let_def)
  from chLed_chase [of i ?d] show ?thesis
  proof
    assume "chLed (chase i ?d) = chLed ?d"
    with assms l show ?thesis by (simp add: chLed_debounce)
  next
    assume "chLed (chase i ?d) = chLed (chase_step ?d)"
    with chLed_range [of ?d] l show ?thesis by simp
  qed
qed

lemma chLed_run: "0 \<le> chLed (run ins init) \<and> chLed (run ins init) \<le> 11"
proof (induction ins rule: rev_induct)
  case Nil
  show ?case by (simp add: run_def init_def)
next
  case (snoc x xs)
  then show ?case unfolding run_snoc by (rule chLed_loop)
qed

text \<open>The full invariant of the animation state, and what it gives for 16-bit \<open>int\<close>.\<close>

lemma chase_inv_init: "chase_inv init"
  by (simp add: chase_inv_def init_def)

lemma chase_inv_step:
  assumes "chase_inv s"
  shows "chase_inv (chase_step s)"
  using assms unfolding chase_inv_def chase_fields Let_def at_end_def reversal_def NUM_LEDS_def
  by (auto split: if_splits)

lemma chase_inv_iter: "chase_inv ((chase_step ^^ n) init)"
  by (induction n) (simp_all add: chase_inv_init chase_inv_step)

lemma chase_no_overflow:
  assumes "chase_inv s"
  shows "int16 (chRound s + 1) \<and> int16 (- chStep s) \<and> int16 (chDelay s + 20) \<and>
         int16 (chLed s + chStep s) \<and> int16 (11 + chStep s)"
  using assms unfolding chase_inv_def int16_def by auto

text \<open>
  C2. Starting from the initial animation state (chLed=0, chStep=1, chRound=0), the chase
  LED index \<open>chLed\<close> remains within [0, 11] after any number of executions of the
  animation-step branch of \<open>loop()\<close>. The second half says the same of any number of
  passes of the whole \<open>loop()\<close>, whatever it reads.
\<close>

theorem chLed_in_range:
  "0 \<le> chLed ((chase_step ^^ n) init) \<and> chLed ((chase_step ^^ n) init) \<le> 11
   \<and> 0 \<le> chLed (run ins init) \<and> chLed (run ins init) \<le> 11"
  using chLed_iter [of n] chLed_run [of ins] by simp

lemma delay_ok_step:
  assumes "delay_ok (chDelay s)"
  shows "delay_ok (chDelay (chase_step s))"
  using assms unfolding delay_ok_def chDelay_chase_step by (auto split: if_splits)

lemma delay_ok_iter: "delay_ok (chDelay ((chase_step ^^ n) init))"
  by (induction n) (simp_all add: delay_ok_step, simp add: delay_ok_def init_def)

text \<open>
  C4. The animation delay \<open>chDelay\<close> is always a multiple of 20 in the range
  [20, 2000]: each reversal replaces \<open>chDelay\<close> by \<open>chDelay + 20\<close> when
  \<open>chDelay < 2000\<close>, and otherwise resets it to 20, so this predicate is preserved by
  every animation step from the initial value 20.
\<close>

theorem chDelay_multiple_of_20:
  "delay_ok (chDelay ((chase_step ^^ n) init))
   \<and> (delay_ok (chDelay s) \<longrightarrow> delay_ok (chDelay (chase_step s)))
   \<and> chDelay (chase_step s) =
       (if reversal s then (if chDelay s < 2000 then chDelay s + 20 else 20) else chDelay s)"
  using delay_ok_iter [of n] delay_ok_step [of s] chDelay_chase_step [of s] by simp

theorem chDelay_multiple_of_20_witness:
  "delay_ok (chDelay at_ceiling) \<and> chDelay at_ceiling = 2000 \<and> reversal at_ceiling
   \<and> delay_ok (chDelay (chase_step at_ceiling)) \<and> chDelay (chase_step at_ceiling) = 20"
  using chDelay_multiple_of_20 [of 0 at_ceiling]
  by (simp add: at_ceiling_def init_def delay_ok_def reversal_def at_end_def NUM_LEDS_def)

subsection \<open>The first reversal\<close>

lemma sweeping_step:
  assumes "sweeping n s" and "Suc n < 252"
  shows "sweeping (Suc n) (chase_step s)"
proof -
  define q r where "q = n div 12" and "r = n mod 12"
  have r12: "r < 12" by (simp add: r_def)
  have n: "n = 12 * q + r" by (simp add: q_def r_def)
  have S: "Suc n mod 12 = (if r = 11 then 0 else Suc r)"
    "Suc n div 12 = (if r = 11 then Suc q else q)"
    by (simp_all add: mod_Suc div_Suc q_def r_def)
  from assms(1) have s: "chLed s = int r" "chRound s = int q" "chStep s = 1" "chDelay s = 20"
    by (simp_all add: sweeping_def q_def r_def)
  show ?thesis
  proof (cases "r = 11")
    case True
    with n assms(2) have "q < 20" by simp
    with True s have "at_end s" and "\<not> reversal s"
      by (simp_all add: at_end_def reversal_def NUM_LEDS_def)
    with True s S show ?thesis
      by (simp add: sweeping_def chase_fields Let_def)
  next
    case False
    with r12 have lt: "r < 11" by simp
    with s have "\<not> at_end s" and "\<not> reversal s"
      by (simp_all add: at_end_def reversal_def NUM_LEDS_def)
    with False lt s S show ?thesis
      by (simp add: sweeping_def chase_fields Let_def)
  qed
qed

lemma sweeping_iter: "n < 252 \<Longrightarrow> sweeping n ((chase_step ^^ n) init)"
proof (induction n)
  case 0
  show ?case by (simp add: sweeping_def init_def)
next
  case (Suc n)
  then show ?case by (simp add: sweeping_step)
qed

lemma first_reversal:
  "chStep ((chase_step ^^ 252) init) = - 1 \<and> chDelay ((chase_step ^^ 252) init) = 40 \<and>
   chRound ((chase_step ^^ 252) init) = 0 \<and> chLed ((chase_step ^^ 252) init) = 10"
proof -
  have s: "sweeping 251 ((chase_step ^^ 251) init)" by (rule sweeping_iter) simp
  have "(chase_step ^^ 252) init = (chase_step ^^ Suc 251) init"
    by (rule arg_cong [where f = "\<lambda>n. (chase_step ^^ n) init"]) simp
  also have "\<dots> = chase_step ((chase_step ^^ 251) init)"
    by (simp only: funpow.simps o_apply)
  finally have "(chase_step ^^ 252) init = chase_step ((chase_step ^^ 251) init)" .
  moreover from s have "reversal ((chase_step ^^ 251) init)"
    by (simp add: sweeping_def reversal_def at_end_def NUM_LEDS_def)
  moreover from s have "at_end ((chase_step ^^ 251) init)"
    by (simp add: sweeping_def reversal_def at_end_def NUM_LEDS_def)
  ultimately show ?thesis using s
    by (simp add: chase_fields Let_def sweeping_def)
qed

lemma after_20_rounds:
  "chRound ((chase_step ^^ 240) init) = 20 \<and> chStep ((chase_step ^^ 240) init) = 1 \<and>
   chDelay ((chase_step ^^ 240) init) = 20 \<and> chLed ((chase_step ^^ 240) init) = 0"
proof -
  have "sweeping 240 ((chase_step ^^ 240) init)" by (rule sweeping_iter) simp
  then show ?thesis by (simp add: sweeping_def)
qed

subsection \<open>Every reversal\<close>

lemma phase_init: "phase 0 init"
  by (simp add: phase_def init_def)

lemma phase_step:
  assumes "phase n s"
  shows "phase (Suc n) (chase_step s)"
proof -
  define k m q r where "k = n div 252" and "m = n mod 252" and "q = m div 12" and "r = m mod 12"
  have m252: "m < 252" by (simp add: m_def)
  have r12: "r < 12" by (simp add: r_def)
  have m_eq: "m = 12 * q + r" by (simp add: q_def r_def)
  from m252 m_eq have q20: "q \<le> 20" by simp
  from m_eq m252 r12 have last: "m = 251 \<longleftrightarrow> q = 20 \<and> r = 11" by arith
  from assms have s: "chStep s = (if even k then 1 else - 1)" "chRound s = int q"
    "chLed s = (if even k then int r else if r = 11 then 11 else 10 - int r)"
    "chDelay s = 20 * (int (k mod 100) + 1)"
    by (simp_all add: phase_def k_def m_def q_def r_def)
  have e: "at_end s \<longleftrightarrow> r = 11"
    using r12 s(3) by (auto simp add: at_end_def NUM_LEDS_def)
  have rv: "reversal s \<longleftrightarrow> m = 251"
    using q20 s(2) by (auto simp add: reversal_def e last)
  have k': "Suc n div 252 = (if m = 251 then Suc k else k)"
    and m': "Suc n mod 252 = (if m = 251 then 0 else Suc m)"
    by (simp_all add: div_Suc mod_Suc k_def m_def)
  have q': "Suc m div 12 = (if r = 11 then Suc q else q)"
    and r': "Suc m mod 12 = (if r = 11 then 0 else Suc r)"
    by (simp_all add: div_Suc mod_Suc q_def r_def)
  have d': "Suc k mod 100 = (if k mod 100 = 99 then 0 else Suc (k mod 100))"
    by (simp add: mod_Suc)
  have kk: "k mod 100 < 100" by simp
  show ?thesis
  proof (cases "m = 251")
    case True
    with last have "q = 20" "r = 11" by simp_all
    with True rv e s kk show ?thesis
      unfolding phase_def k' m' chase_fields Let_def
      by (auto simp add: k_def [symmetric] d')
  next
    case False
    with rv have nr: "\<not> reversal s" by simp
    show ?thesis
    proof (cases "r = 11")
      case True
      with False nr e s show ?thesis
        unfolding phase_def k' m' chase_fields Let_def
        by (auto simp add: k_def [symmetric] q' r')
    next
      case r11: False
      with r12 have "r < 11" by simp
      with False nr e s r11 show ?thesis
        unfolding phase_def k' m' chase_fields Let_def
        by (auto simp add: k_def [symmetric] q' r')
    qed
  qed
qed

lemma phase_iter: "phase n ((chase_step ^^ n) init)"
  by (induction n) (simp_all add: phase_init phase_step)

lemma phase_reversal:
  assumes "phase n s"
  shows "reversal s \<longleftrightarrow> n mod 252 = 251"
proof -
  define m q r where "m = n mod 252" and "q = m div 12" and "r = m mod 12"
  have m252: "m < 252" by (simp add: m_def)
  have r12: "r < 12" by (simp add: r_def)
  have m_eq: "m = 12 * q + r" by (simp add: q_def r_def)
  from m252 m_eq have q20: "q \<le> 20" by simp
  from m_eq m252 r12 have last: "m = 251 \<longleftrightarrow> q = 20 \<and> r = 11" by arith
  from assms have s: "chRound s = int q"
    "chLed s = (if even (n div 252) then int r else if r = 11 then 11 else 10 - int r)"
    by (simp_all add: phase_def m_def q_def r_def)
  have "at_end s \<longleftrightarrow> r = 11"
    using r12 s(2) by (auto simp add: at_end_def NUM_LEDS_def)
  then have "reversal s \<longleftrightarrow> m = 251"
    using q20 s(1) by (auto simp add: reversal_def last)
  then show ?thesis by (simp add: m_def)
qed

text \<open>
  C3, as the specification states it: after exactly 20 round trips of the chase
  animation the step direction inverts and the delay goes from 20 ms to 40 ms. A round
  trip is twelve animation steps. After 240 steps from power-on the round counter is 20,
  and neither has happened: the guard of the reversal is \<open>chRound > 20\<close>, tested after
  the increment.
\<close>

theorem no_reversal_after_20_round_trips:
  "chRound ((chase_step ^^ 240) init) = 20
   \<and> chStep ((chase_step ^^ 240) init) \<noteq> - chStep init
   \<and> chDelay ((chase_step ^^ 240) init) \<noteq> 40"
  using after_20_rounds by (simp add: init_def)

text \<open>
  C3, amended: the reversal happens when the round counter, after its increment at the
  end of a sweep, exceeds 20, that is at the end of the 21st sweep since the last
  reversal. At that step the direction \<open>chStep\<close> inverts sign, the delay
  \<open>chDelay\<close> increases by 20 ms, or resets to 20 ms when it has reached 2000 ms,
  and the round counter returns to 0; at every other step direction and delay keep their
  values, and the round counter goes up by one at the end of a sweep. From power-on
  (delay 20 ms, direction +1) direction and delay are unchanged during the first 251
  steps, with the round counter at the number of completed sweeps, and step 252 (the end
  of the 21st sweep) yields delay 40 ms and direction -1. In general, \<open>n\<close> steps
  after power-on the next step is a reversal exactly when it is step 252, 504, 756
  and so on; the round counter is the number of sweeps completed since the last of
  them, the direction is +1 after an even number of reversals and -1 after an odd number,
  and the delay is 20 ms times one more than the number of reversals, counted modulo 100.
\<close>

theorem reversal_after_21_round_trips:
  "(reversal s \<longleftrightarrow> (chLed s > 10 \<or> chLed s < 0) \<and> chRound s \<ge> 20)
   \<and> chStep (chase_step s) = (if reversal s then - chStep s else chStep s)
   \<and> chDelay (chase_step s) =
       (if reversal s then (if chDelay s < 2000 then chDelay s + 20 else 20) else chDelay s)
   \<and> chRound (chase_step s) =
       (if reversal s then 0
        else if chLed s > 10 \<or> chLed s < 0 then chRound s + 1 else chRound s)
   \<and> (\<forall>n<252. chStep ((chase_step ^^ n) init) = 1 \<and> chDelay ((chase_step ^^ n) init) = 20
         \<and> chRound ((chase_step ^^ n) init) = int (n div 12))
   \<and> chStep ((chase_step ^^ 252) init) = - 1
   \<and> chDelay ((chase_step ^^ 252) init) = 40
   \<and> (reversal ((chase_step ^^ n) init) \<longleftrightarrow> n mod 252 = 251)
   \<and> chRound ((chase_step ^^ n) init) = int (n mod 252 div 12)
   \<and> chStep ((chase_step ^^ n) init) = (if even (n div 252) then 1 else - 1)
   \<and> chDelay ((chase_step ^^ n) init) = 20 * (int (n div 252 mod 100) + 1)"
proof -
  have a: "reversal s \<longleftrightarrow> (chLed s > 10 \<or> chLed s < 0) \<and> chRound s \<ge> 20"
    by (auto simp add: reversal_def at_end_def NUM_LEDS_def)
  have b: "chRound (chase_step s) =
       (if reversal s then 0
        else if chLed s > 10 \<or> chLed s < 0 then chRound s + 1 else chRound s)"
    using chRound_chase_step [of s] by (simp add: at_end_def NUM_LEDS_def)
  have c: "\<forall>n<252. chStep ((chase_step ^^ n) init) = 1
      \<and> chDelay ((chase_step ^^ n) init) = 20
      \<and> chRound ((chase_step ^^ n) init) = int (n div 12)"
    using sweeping_iter by (simp add: sweeping_def)
  have p: "phase n ((chase_step ^^ n) init)" by (rule phase_iter)
  then have d: "chRound ((chase_step ^^ n) init) = int (n mod 252 div 12)"
    "chStep ((chase_step ^^ n) init) = (if even (n div 252) then 1 else - 1)"
    "chDelay ((chase_step ^^ n) init) = 20 * (int (n div 252 mod 100) + 1)"
    by (simp_all add: phase_def)
  note e = phase_reversal [OF p]
  note f = chStep_chase_step [of s] chDelay_chase_step [of s]
  from first_reversal have g: "chStep ((chase_step ^^ 252) init) = - 1"
    "chDelay ((chase_step ^^ 252) init) = 40" by simp_all
  from a f b c g e d show ?thesis by (intro conjI)
qed

theorem reversal_after_21_round_trips_witness:
  "(251 :: nat) < 252
   \<and> chStep ((chase_step ^^ 251) init) = 1 \<and> chDelay ((chase_step ^^ 251) init) = 20
   \<and> chRound ((chase_step ^^ 251) init) = 20
   \<and> chStep ((chase_step ^^ 252) init) = - 1 \<and> chDelay ((chase_step ^^ 252) init) = 40
   \<and> chRound ((chase_step ^^ 252) init) = 0
   \<and> reversal ((chase_step ^^ 503) init)
   \<and> chStep ((chase_step ^^ 504) init) = 1 \<and> chDelay ((chase_step ^^ 504) init) = 60
   \<and> chRound ((chase_step ^^ 504) init) = 0"
  using reversal_after_21_round_trips [of init 252] reversal_after_21_round_trips [of init 503]
    reversal_after_21_round_trips [of init 504]
  by simp

section \<open>Debounce: properties\<close>

lemma lnot_neq: "lnot x \<noteq> x"
  by (simp add: lnot_def)

lemma loop_lastButtonState: "lastButtonState (loop i s) = reading i"
  by (simp add: loop_def Let_def)

lemma chase_debounce_fields:
  "ledState (chase i s) = ledState s" "buttonState (chase i s) = buttonState s"
  "lastDebounceTime (chase i s) = lastDebounceTime s" "debounceDelay (chase i s) = debounceDelay s"
  by (simp_all add: chase_def chase_step_def Let_def)

lemma loop_debounceDelay: "debounceDelay (loop i s) = debounceDelay s"
  by (simp add: loop_def Let_def chase_debounce_fields debounce_def)

lemma loop_lastDebounceTime:
  "lastDebounceTime (loop i s) =
     (if reading i \<noteq> lastButtonState s then millis (t_reset i) else lastDebounceTime s)"
  by (simp add: loop_def Let_def chase_debounce_fields debounce_def)

lemma loop_buttonState:
  "buttonState (loop i s) = (if accept i s then reading i else buttonState s)"
  by (simp add: loop_def Let_def chase_debounce_fields debounce_def accept_def)

lemma toggles_iff:
  "toggles i s \<longleftrightarrow> accept i s \<and> reading i \<noteq> buttonState s \<and> reading i = HIGH"
  by (simp add: toggles_def loop_def Let_def chase_debounce_fields debounce_def accept_def lnot_neq)

lemma elapsed_true_time:
  assumes "a \<le> b" and "d < millis b - millis a"
  shows "a + unat d < b"
proof -
  have "millis b - millis a = (of_nat (b - a) :: ulong)"
    using assms(1) by (simp add: millis_def)
  then have "unat (millis b - millis a) \<le> b - a"
    by (simp add: unat_of_nat)
  moreover from assms(2) have "unat d < unat (millis b - millis a)"
    by (simp add: word_less_nat_alt)
  ultimately show ?thesis using assms(1) by simp
qed

lemma run_debounceDelay: "debounceDelay (run xs s) = debounceDelay s"
  by (induction xs rule: rev_induct) (simp_all add: run_def loop_debounceDelay)

subsection \<open>The clock\<close>

lemma clock_within:
  assumes "clock_ok xs" and "j < length xs"
  shows "t_reset (xs ! j) \<le> t_check (xs ! j) \<and> t_check (xs ! j) \<le> t_chase (xs ! j) \<and>
         t_chase (xs ! j) \<le> t_stamp (xs ! j)"
proof -
  from assms(2) have "xs = take j xs @ xs ! j # drop (Suc j) xs"
    by (rule id_take_nth_drop)
  then have "concat (map times_of xs) =
      concat (map times_of (take j xs)) @ times_of (xs ! j) @ concat (map times_of (drop (Suc j) xs))"
    by (metis concat.simps(2) concat_append list.simps(9) map_append)
  with assms(1) have "sorted (times_of (xs ! j))"
    by (simp add: clock_ok_def sorted_append)
  then show ?thesis by (simp add: times_of_def)
qed

lemma clock_across:
  assumes "clock_ok xs" and "m < j" and "j < length xs"
    and "a \<in> set (times_of (xs ! m))" and "b \<in> set (times_of (xs ! j))"
  shows "a \<le> b"
proof -
  from assms(3) have "xs = take j xs @ xs ! j # drop (Suc j) xs"
    by (rule id_take_nth_drop)
  then have c: "concat (map times_of xs) =
      concat (map times_of (take j xs)) @ times_of (xs ! j) @ concat (map times_of (drop (Suc j) xs))"
    by (metis concat.simps(2) concat_append list.simps(9) map_append)
  have "xs ! m \<in> set (take j xs)"
    using assms(2,3) by (metis in_set_conv_nth length_take min.absorb2 less_imp_le nth_take)
  with assms(4) have "a \<in> set (concat (map times_of (take j xs)))" by auto
  with assms(1,5) show ?thesis
    unfolding clock_ok_def c sorted_append by auto
qed

lemma clock_ok_take: "clock_ok xs \<Longrightarrow> clock_ok (take j xs)"
proof -
  assume a: "clock_ok xs"
  have "concat (map times_of xs) =
      concat (map times_of (take j xs)) @ concat (map times_of (drop j xs))"
    by (metis append_take_drop_id concat_append map_append)
  with a show ?thesis by (simp add: clock_ok_def sorted_append)
qed

subsection \<open>A toggle needs a reading that has been stable for the debounce delay\<close>

lemma stable_step:
  assumes "stable xs s"
  shows "stable (xs @ [x]) (loop x s)"
proof (cases "reading x = lastButtonState s")
  case False
  have "length xs < length (xs @ [x])" by simp
  moreover have "lastDebounceTime (loop x s) = millis (t_reset ((xs @ [x]) ! length xs))"
    using False by (simp add: loop_lastDebounceTime)
  moreover have "\<forall>k. length xs \<le> k \<and> k < length (xs @ [x]) \<longrightarrow>
      reading ((xs @ [x]) ! k) = lastButtonState (loop x s)"
    by (auto simp add: loop_lastButtonState nth_append)
  ultimately show ?thesis unfolding stable_def by blast
next
  case True
  then have ldt: "lastDebounceTime (loop x s) = lastDebounceTime s"
    by (simp add: loop_lastDebounceTime)
  from assms show ?thesis unfolding stable_def
  proof (elim disjE exE conjE)
    assume "lastButtonState s = LOW" and "\<forall>k<length xs. reading (xs ! k) = LOW"
    with True have "lastButtonState (loop x s) = LOW \<and>
        (\<forall>k<length (xs @ [x]). reading ((xs @ [x]) ! k) = LOW)"
      by (auto simp add: loop_lastButtonState nth_append less_Suc_eq)
    then show "(lastButtonState (loop x s) = LOW \<and>
        (\<forall>k<length (xs @ [x]). reading ((xs @ [x]) ! k) = LOW)) \<or>
      (\<exists>m<length (xs @ [x]). lastDebounceTime (loop x s) = millis (t_reset ((xs @ [x]) ! m)) \<and>
        (\<forall>k. m \<le> k \<and> k < length (xs @ [x]) \<longrightarrow>
           reading ((xs @ [x]) ! k) = lastButtonState (loop x s)))"
      by (rule disjI1)
  next
    fix m
    assume m: "m < length xs" and l: "lastDebounceTime s = millis (t_reset (xs ! m))"
      and r: "\<forall>k. m \<le> k \<and> k < length xs \<longrightarrow> reading (xs ! k) = lastButtonState s"
    have "m < length (xs @ [x])" using m by simp
    moreover have "lastDebounceTime (loop x s) = millis (t_reset ((xs @ [x]) ! m))"
      using m l ldt by (simp add: nth_append)
    moreover have "\<forall>k. m \<le> k \<and> k < length (xs @ [x]) \<longrightarrow>
        reading ((xs @ [x]) ! k) = lastButtonState (loop x s)"
      using r True by (auto simp add: loop_lastButtonState nth_append less_Suc_eq)
    ultimately show "(lastButtonState (loop x s) = LOW \<and>
        (\<forall>k<length (xs @ [x]). reading ((xs @ [x]) ! k) = LOW)) \<or>
      (\<exists>m<length (xs @ [x]). lastDebounceTime (loop x s) = millis (t_reset ((xs @ [x]) ! m)) \<and>
        (\<forall>k. m \<le> k \<and> k < length (xs @ [x]) \<longrightarrow>
           reading ((xs @ [x]) ! k) = lastButtonState (loop x s)))"
      by blast
  qed
qed

lemma stable_run: "stable xs (run xs init)"
proof (induction xs rule: rev_induct)
  case Nil
  show ?case by (simp add: stable_def run_def init_def)
next
  case (snoc x xs)
  then show ?case by (simp add: run_snoc stable_step)
qed

lemma run_take_Suc:
  "j < length xs \<Longrightarrow> run (take (Suc j) xs) s = loop (xs ! j) (run (take j xs) s)"
  by (simp add: take_Suc_conv_app_nth run_snoc)

lemma toggle_at_length: "toggle_at xs j \<Longrightarrow> j < length xs"
  by (rule ccontr) (simp add: toggle_at_def)

lemma toggle_at_toggles:
  "j < length xs \<Longrightarrow> toggle_at xs j \<longleftrightarrow> toggles (xs ! j) (run (take j xs) init)"
  by (simp add: toggle_at_def toggles_def run_take_Suc)

lemma stable_changed:
  assumes "stable xs s" and "lastButtonState s \<noteq> LOW"
  obtains m where "m < length xs" and "lastDebounceTime s = millis (t_reset (xs ! m))"
    and "\<And>k. m \<le> k \<Longrightarrow> k < length xs \<Longrightarrow> reading (xs ! k) = lastButtonState s"
  using assms unfolding stable_def by blast

lemma toggle_stable_window:
  assumes c: "clock_ok xs" and t: "toggle_at xs j"
  shows "\<exists>m\<le>j. (\<forall>k. m \<le> k \<and> k \<le> j \<longrightarrow> reading (xs ! k) = reading (xs ! j)) \<and>
           t_reset (xs ! m) + 1000 < t_check (xs ! j)"
proof -
  let ?s = "run (take j xs) init"
  let ?x = "xs ! j"
  from t have j: "j < length xs" by (rule toggle_at_length)
  with t have tg: "toggles ?x ?s" by (simp add: toggle_at_toggles)
  then have acc: "accept ?x ?s" and hi: "reading ?x = HIGH" by (simp_all add: toggles_iff)
  have dd: "debounceDelay ?s = 1000" by (simp add: run_debounceDelay init_def)
  have u: "unat (1000 :: ulong) = 1000" by simp
  show ?thesis
  proof (cases "reading ?x = lastButtonState ?s")
    case False
    with acc dd have "(1000 :: ulong) < millis (t_check ?x) - millis (t_reset ?x)"
      by (simp add: accept_def)
    moreover have "t_reset ?x \<le> t_check ?x" using clock_within [OF c j] by simp
    ultimately have "t_reset ?x + unat (1000 :: ulong) < t_check ?x"
      by (rule elapsed_true_time [rotated])
    then have w: "t_reset ?x + 1000 < t_check ?x" unfolding u .
    have "\<forall>k. j \<le> k \<and> k \<le> j \<longrightarrow> reading (xs ! k) = reading ?x"
      by (auto dest: le_antisym)
    with w show ?thesis by blast
  next
    case True
    with hi have nl: "lastButtonState ?s \<noteq> LOW" by (simp add: HIGH_def LOW_def)
    have "stable (take j xs) ?s" by (rule stable_run)
    from this nl obtain m where m0: "m < length (take j xs)"
      and l0: "lastDebounceTime ?s = millis (t_reset (take j xs ! m))"
      and r0: "\<And>k. m \<le> k \<Longrightarrow> k < length (take j xs) \<Longrightarrow>
                 reading (take j xs ! k) = lastButtonState ?s"
      by (rule stable_changed) blast
    from m0 have m: "m < j" by simp
    from l0 m have l: "lastDebounceTime ?s = millis (t_reset (xs ! m))" by simp
    have r: "reading (xs ! k) = reading ?x" if "m \<le> k" "k \<le> j" for k
    proof (cases "k = j")
      case True
      then show ?thesis by simp
    next
      case False
      with that have kj: "k < j" by simp
      with j have "k < length (take j xs)" by simp
      from r0 [OF that(1) this] kj show ?thesis using True by simp
    qed
    from acc dd True l have "(1000 :: ulong) < millis (t_check ?x) - millis (t_reset (xs ! m))"
      by (simp add: accept_def)
    moreover have "t_reset (xs ! m) \<le> t_check ?x"
      by (rule clock_across [OF c m j]) (simp_all add: times_of_def)
    ultimately have "t_reset (xs ! m) + unat (1000 :: ulong) < t_check ?x"
      by (rule elapsed_true_time [rotated])
    then have w: "t_reset (xs ! m) + 1000 < t_check ?x" unfolding u .
    from m have "m \<le> j" by simp
    with r w show ?thesis by blast
  qed
qed

subsection \<open>Two toggles are more than the debounce delay apart\<close>

lemma quiet_start:
  assumes "toggles x s" and "t_check x \<le> t_stamp x"
  shows "quiet (t_check x) (t_stamp x) (loop x s)"
  using assms by (simp add: quiet_def toggles_iff loop_buttonState loop_lastButtonState)

lemma accept_elapsed_reset:
  assumes "accept x s" and "reading x \<noteq> lastButtonState s" and "t_reset x \<le> t_check x"
  shows "t_reset x + unat (debounceDelay s) < t_check x"
  using assms by (simp add: accept_def elapsed_true_time)

lemma accept_elapsed_keep:
  assumes "accept x s" and "reading x = lastButtonState s"
    and "lastDebounceTime s = millis L" and "L \<le> t_check x"
  shows "L + unat (debounceDelay s) < t_check x"
  using assms by (simp add: accept_def elapsed_true_time)

lemma quiet_no_toggle:
  assumes q: "quiet T now s" and t: "toggles x s" and n: "now \<le> t_check x"
  shows "T + unat (debounceDelay s) < t_check x"
proof -
  from t have "reading x \<noteq> buttonState s" and "reading x = HIGH"
    by (simp_all add: toggles_iff)
  then have "buttonState s \<noteq> HIGH" by simp
  with q have "T + unat (debounceDelay s) < now" by (simp add: quiet_def)
  with n show ?thesis by simp
qed

lemma quiet_step:
  assumes q: "quiet T now s"
    and c: "now \<le> t_reset x" "t_reset x \<le> t_check x" "t_check x \<le> t_stamp x"
  shows "quiet T (t_stamp x) (loop x s)"
proof -
  let ?D = "unat (debounceDelay s)"
  from q have Tn: "T \<le> now" by (simp add: quiet_def)
  with c have Ts: "T \<le> t_stamp x" by simp
  have late: "quiet T (t_stamp x) (loop x s)" if "T + ?D < t_check x"
    using that c Ts by (simp add: quiet_def loop_debounceDelay)
  show ?thesis
  proof (cases "T + ?D < now")
    case True
    with c show ?thesis by (intro late) simp
  next
    case False
    with q have b: "buttonState s = HIGH"
      and h: "lastButtonState s = HIGH \<or> (\<exists>L. lastDebounceTime s = millis L \<and> T \<le> L \<and> L \<le> now)"
      by (simp_all add: quiet_def)
    show ?thesis
    proof (cases "reading x = lastButtonState s")
      case changed: False
      show ?thesis
      proof (cases "accept x s")
        case True
        from accept_elapsed_reset [OF True changed c(2)] Tn c(1)
        show ?thesis by (intro late) simp
      next
        case False
        have "lastDebounceTime (loop x s) = millis (t_reset x)"
          using changed by (simp add: loop_lastDebounceTime)
        moreover have "T \<le> t_reset x" "t_reset x \<le> t_stamp x" using Tn c by simp_all
        ultimately have "\<exists>L. lastDebounceTime (loop x s) = millis L \<and> T \<le> L \<and> L \<le> t_stamp x"
          by blast
        with False b Ts show ?thesis
          by (simp add: quiet_def loop_buttonState)
      qed
    next
      case same: True
      then have ldt: "lastDebounceTime (loop x s) = lastDebounceTime s"
        by (simp add: loop_lastDebounceTime)
      from h show ?thesis
      proof
        assume "lastButtonState s = HIGH"
        with same b Ts show ?thesis
          by (simp add: quiet_def loop_buttonState loop_lastButtonState)
      next
        assume "\<exists>L. lastDebounceTime s = millis L \<and> T \<le> L \<and> L \<le> now"
        then obtain L where L: "lastDebounceTime s = millis L" "T \<le> L" "L \<le> now" by blast
        show ?thesis
        proof (cases "accept x s")
          case True
          from L c have "L \<le> t_check x" by simp
          from accept_elapsed_keep [OF True same L(1) this] L(2)
          show ?thesis by (intro late) simp
        next
          case False
          from L c have "\<exists>L. lastDebounceTime (loop x s) = millis L \<and> T \<le> L \<and> L \<le> t_stamp x"
            unfolding ldt by (intro exI [of _ L]) simp
          with False b Ts show ?thesis
            by (simp add: quiet_def loop_buttonState)
        qed
      qed
    qed
  qed
qed

lemma toggle_at_append:
  assumes "j < length xs"
  shows "toggle_at (xs @ ys) j \<longleftrightarrow> toggle_at xs j"
  using assms by (simp add: toggle_at_def)

lemma toggle_at_take:
  assumes "i < j"
  shows "toggle_at (take j xs) i \<longleftrightarrow> toggle_at xs i"
proof -
  from assms have "take (Suc i) (take j xs) = take (Suc i) xs" and "take i (take j xs) = take i xs"
    by (simp_all add: min_def)
  then show ?thesis by (simp add: toggle_at_def)
qed

lemma clock_last:
  assumes c: "clock_ok (xs @ [x])" and ne: "xs \<noteq> []"
  shows "t_stamp (last xs) \<le> t_reset x"
proof -
  let ?m = "length xs - 1"
  from ne have m: "?m < length xs" by simp
  have a: "(xs @ [x]) ! ?m = last xs" using ne m by (simp add: nth_append last_conv_nth)
  have b: "(xs @ [x]) ! length xs = x" by simp
  have "t_stamp ((xs @ [x]) ! ?m) \<le> t_reset ((xs @ [x]) ! length xs)"
    by (rule clock_across [OF c m]) (simp_all add: times_of_def)
  then show ?thesis unfolding a b .
qed

lemma quiet_run:
  assumes "clock_ok xs" and "toggle_at xs j"
  shows "quiet (t_check (xs ! j)) (t_stamp (last xs)) (run xs init)"
  using assms
proof (induction xs rule: rev_induct)
  case Nil
  then show ?case by (simp add: toggle_at_def)
next
  case (snoc x xs)
  let ?s = "run xs init"
  from snoc.prems(1) have cx: "clock_ok xs"
    using clock_ok_take [of "xs @ [x]" "length xs"] by simp
  have w: "t_reset x \<le> t_check x" "t_check x \<le> t_stamp x"
    using clock_within [OF snoc.prems(1), of "length xs"] by simp_all
  from snoc.prems(2) have "j < length (xs @ [x])" by (rule toggle_at_length)
  then have "j < length xs \<or> j = length xs" by auto
  then show ?case
  proof
    assume j: "j < length xs"
    with snoc.prems(2) have "toggle_at xs j" by (simp add: toggle_at_append)
    with cx have q: "quiet (t_check (xs ! j)) (t_stamp (last xs)) ?s" by (rule snoc.IH)
    from j have "xs \<noteq> []" by auto
    with snoc.prems(1) have "t_stamp (last xs) \<le> t_reset x" by (rule clock_last)
    with q have "quiet (t_check (xs ! j)) (t_stamp x) (loop x ?s)"
      using w by (rule quiet_step)
    with j show ?case by (simp add: run_snoc nth_append)
  next
    assume j: "j = length xs"
    with snoc.prems(2) have "toggles x ?s"
      using toggle_at_toggles [of j "xs @ [x]"] by simp
    then have "quiet (t_check x) (t_stamp x) (loop x ?s)" using w(2) by (rule quiet_start)
    with j show ?case by (simp add: run_snoc)
  qed
qed

lemma toggles_spaced:
  assumes c: "clock_ok xs" and i: "toggle_at xs i" and j: "toggle_at xs j" and ij: "i < j"
  shows "t_check (xs ! i) + 1000 < t_check (xs ! j)"
proof -
  let ?p = "take j xs"
  let ?s = "run ?p init"
  from j have jl: "j < length xs" by (rule toggle_at_length)
  from c have cp: "clock_ok ?p" by (rule clock_ok_take)
  from i ij have "toggle_at ?p i" by (simp add: toggle_at_take)
  with cp have "quiet (t_check (?p ! i)) (t_stamp (last ?p)) ?s" by (rule quiet_run)
  with ij have q: "quiet (t_check (xs ! i)) (t_stamp (last ?p)) ?s" by simp
  from ij jl have ne: "?p \<noteq> []" by auto
  have lp: "last ?p = xs ! (j - 1)"
    using ij jl ne by (simp add: last_conv_nth min_def)
  have "t_stamp (xs ! (j - 1)) \<le> t_check (xs ! j)"
    using ij by (intro clock_across [OF c _ jl, of "j - 1"]) (simp_all add: times_of_def)
  then have n: "t_stamp (last ?p) \<le> t_check (xs ! j)" unfolding lp .
  from j jl have "toggles (xs ! j) ?s" by (simp add: toggle_at_toggles)
  with q have "t_check (xs ! i) + unat (debounceDelay ?s) < t_check (xs ! j)"
    using n by (rule quiet_no_toggle)
  then show ?thesis by (simp add: run_debounceDelay init_def)
qed

text \<open>
  C6. For every input sequence read from the button pin, the \<open>ledState\<close> latch toggles
  at most once per debounce window: a toggle occurs only after the reading has remained
  unchanged for longer than \<open>debounceDelay\<close> milliseconds and the stabilized reading
  differs from the previously accepted \<open>buttonState\<close> and equals \<open>HIGH\<close>, so no two
  toggles happen within one debounce window regardless of input chatter. Stated for the
  run of \<open>loop()\<close> from power-on over any sequence of readings taken at times that
  do not go backwards, with \<open>debounceDelay\<close> at its value 1000: if pass \<open>j\<close> toggles
  the latch, its reading is \<open>HIGH\<close> and differs from the accepted \<open>buttonState\<close>,
  the readings of the passes \<open>m\<close> to \<open>j\<close> are all the same for some pass \<open>m\<close> that
  started more than 1000 ms before the check of pass \<open>j\<close>, and every earlier toggle
  lies more than 1000 ms before this one.
\<close>

theorem debounce_once_per_window:
  assumes "clock_ok ins" and "toggle_at ins j"
  shows "j < length ins
    \<and> reading (ins ! j) = HIGH
    \<and> reading (ins ! j) \<noteq> buttonState (run (take j ins) init)
    \<and> (\<exists>m\<le>j. (\<forall>k. m \<le> k \<and> k \<le> j \<longrightarrow> reading (ins ! k) = reading (ins ! j)) \<and>
           t_reset (ins ! m) + 1000 < t_check (ins ! j))
    \<and> (\<forall>i<j. toggle_at ins i \<longrightarrow> t_check (ins ! i) + 1000 < t_check (ins ! j))"
proof -
  from assms(2) have j: "j < length ins" by (rule toggle_at_length)
  with assms(2) have "toggles (ins ! j) (run (take j ins) init)"
    by (simp add: toggle_at_toggles)
  then have "reading (ins ! j) = HIGH"
    and "reading (ins ! j) \<noteq> buttonState (run (take j ins) init)"
    by (simp_all add: toggles_iff)
  moreover note j toggle_stable_window [OF assms]
  moreover have "\<forall>i<j. toggle_at ins i \<longrightarrow> t_check (ins ! i) + 1000 < t_check (ins ! j)"
    using toggles_spaced [OF assms(1) _ assms(2)] by blast
  ultimately show ?thesis by blast
qed

lemma two_presses_clock: "clock_ok two_presses"
  by (simp add: clock_ok_def two_presses_def sample_def times_of_def)

lemma two_presses_toggles: "toggle_at two_presses 1 \<and> toggle_at two_presses 5"
  by code_simp

theorem debounce_once_per_window_witness:
  "clock_ok two_presses \<and> toggle_at two_presses 1 \<and> toggle_at two_presses 5
   \<and> reading (two_presses ! 5) = HIGH
   \<and> t_check (two_presses ! 1) + 1000 < t_check (two_presses ! 5)"
  using debounce_once_per_window [of two_presses 5] two_presses_clock two_presses_toggles
  by (simp add: two_presses_def sample_def HIGH_def)

end
